theory Spec2Isabelle
  imports Complex_Main "HOL-Library.Char_ord" "HOL-Library.List_Lexorder"
    "HOL-Library.Product_Lexorder"
begin

section \<open>Countdown timer detection (CountdownTimerAnalysis.ipynb)\<close>

text \<open>
  The notebook detects countdown timers in a table of text segments. Its core is
  \<^verbatim>\<open>preprocess_segments\<close> (two regular-expression substitutions), the helpers
  \<^verbatim>\<open>differences\<close>, \<^verbatim>\<open>most_common\<close>, \<^verbatim>\<open>most_common_neg\<close>,
  \<^verbatim>\<open>num_most_common_neg\<close>, the two heuristics \<^verbatim>\<open>is_decreasing\<close> and
  \<^verbatim>\<open>is_decreasing_mode\<close>, the aggregations \<^verbatim>\<open>num_unique\<close> and
  \<^verbatim>\<open>ts_check\<close>, and \<^verbatim>\<open>detect_timers\<close>, which groups the table and filters it.
  Python exceptions are values of type \<open>error\<close>; a function that can raise returns
  \<open>error + 'a\<close> with \<open>Inl\<close> for the exception.
\<close>

subsection \<open>Preprocessing: the two substitutions of \<^verbatim>\<open>preprocess_segments\<close>\<close>

text \<open>
  \<^verbatim>\<open>\d\<close> on the notebook's strings is a decimal digit \<^verbatim>\<open>0\<close>..\<^verbatim>\<open>9\<close>; \<^verbatim>\<open>\D\<close> is any
  other character.
\<close>

definition is_digit :: "char \<Rightarrow> bool" where
  "is_digit c = (CHR ''0'' \<le> c \<and> c \<le> CHR ''9'')"

text \<open>
  \<^verbatim>\<open>re.sub(r'\d+', 'DPNUM', x)\<close>: scanning from the left, a digit starts a match that
  takes the whole run of digits after it (\<^verbatim>\<open>+\<close> is greedy), the run is replaced by
  \<^verbatim>\<open>DPNUM\<close> and the scan goes on behind the run; any other character is copied.
\<close>

function inner_processed_of :: "string \<Rightarrow> string" where
  "inner_processed_of [] = []"
| "inner_processed_of (c # cs) =
     (if is_digit c then ''DPNUM'' @ inner_processed_of (dropWhile is_digit cs)
      else c # inner_processed_of cs)"
  by pat_completeness auto
termination
  by (relation "measure length") (auto simp: length_dropWhile_le less_Suc_eq_le)

text \<open>
  \<^verbatim>\<open>re.sub(r'\D+', '', x)\<close>: every run of non-digits is deleted, the digits stay in
  their order.
\<close>

definition inner_digits_of :: "string \<Rightarrow> string" where
  "inner_digits_of x = filter is_digit x"

subsection \<open>Rows of the segment table\<close>

text \<open>
  A row of \<^verbatim>\<open>SEGMENTS_QUERY\<close>, and the row after \<^verbatim>\<open>preprocess_segments\<close> has added
  the columns \<^verbatim>\<open>inner_processed\<close> and \<^verbatim>\<open>inner_digits\<close>. The columns \<^verbatim>\<open>top\<close> and
  \<^verbatim>\<open>left\<close> are called \<open>top_y\<close> and \<open>left_x\<close> here. The type of a time stamp is a
  parameter: it is a pandas type, and the notebook only converts it
  (\<^verbatim>\<open>pd.to_datetime\<close>, \<^verbatim>\<open>int(ts)\<close>); both conversions are parameters of the functions
  that call them. No column is null.
\<close>

record 'ts segment_row =
  site_url :: string
  visit_id :: int
  node_id :: int
  top_y :: int
  left_x :: int
  width :: int
  height :: int
  inner_text :: string
  time_stamp :: 'ts

record 'ts segment = "'ts segment_row" +
  inner_processed :: string
  inner_digits :: string

definition preprocess_segments :: "('raw \<Rightarrow> 'ts) \<Rightarrow> 'raw segment_row list \<Rightarrow> 'ts segment list" where
  "preprocess_segments to_datetime segments =
     map (\<lambda>r. \<lparr>site_url = site_url r, visit_id = visit_id r, node_id = node_id r,
               top_y = top_y r, left_x = left_x r, width = width r, height = height r,
               inner_text = inner_text r, time_stamp = to_datetime (time_stamp r),
               inner_processed = inner_processed_of (inner_text r),
               inner_digits = inner_digits_of (inner_text r)\<rparr>) segments"

subsection \<open>Helpers of the heuristics\<close>

datatype error = ValueError

definition TIMER_MIN_NEG_POS_UPDATE_RATIO :: nat where
  "TIMER_MIN_NEG_POS_UPDATE_RATIO = 5"

definition TIMER_MIN_NO_OF_NEG_UPDATES :: nat where
  "TIMER_MIN_NO_OF_NEG_UPDATES = 5"

text \<open>
  \<^verbatim>\<open>int(s)\<close> on a string of \<^verbatim>\<open>inner_digits\<close>, which holds decimal digits only: the
  decimal value (leading zeros allowed), and \<^verbatim>\<open>ValueError\<close> for the empty string.
  Strings with other characters never reach \<^verbatim>\<open>int\<close> in the notebook; the model
  raises on them.
\<close>

definition digits_value :: "string \<Rightarrow> int" where
  "digits_value s = foldl (\<lambda>acc c. 10 * acc + (int (of_char c) - 48)) 0 s"

definition digit_string :: "string \<Rightarrow> bool" where
  "digit_string s = (s \<noteq> [] \<and> list_all is_digit s)"

definition py_int :: "string \<Rightarrow> error + int" where
  "py_int s = (if digit_string s then Inr (digits_value s) else Inl ValueError)"

text \<open>A list comprehension whose element expression can raise: the first exception ends it.\<close>

fun collect :: "(error + 'a) list \<Rightarrow> error + 'a list" where
  "collect [] = Inr []"
| "collect (x # xs) =
     (case x of Inl e \<Rightarrow> Inl e
      | Inr v \<Rightarrow> (case collect xs of Inl e \<Rightarrow> Inl e | Inr vs \<Rightarrow> Inr (v # vs)))"

text \<open>
  \<^verbatim>\<open>[int(j)-int(i) for i, j in zip(series[:-1], series[1:])]\<close>; \<^verbatim>\<open>int(j)\<close> is evaluated
  before \<^verbatim>\<open>int(i)\<close>.
\<close>

definition differences :: "string list \<Rightarrow> error + int list" where
  "differences series =
     collect (map (\<lambda>(i, j).
        case py_int j of Inl e \<Rightarrow> Inl e
        | Inr vj \<Rightarrow> (case py_int i of Inl e \<Rightarrow> Inl e | Inr vi \<Rightarrow> Inr (vj - vi)))
       (zip (butlast series) (tl series)))"

text \<open>
  \<^verbatim>\<open>Counter(xs)\<close> is a dictionary from each element to its number of occurrences, built
  by one pass over \<open>xs\<close>; it is an association list in insertion order here.
  \<^verbatim>\<open>most_common(1)\<close> is \<^verbatim>\<open>max\<close> over the items with the count as key: the first item of
  the iteration with the greatest count. The iteration order of the dictionary is taken
  to be its insertion order, so among equally frequent values the one met first wins.
\<close>

fun counter_add :: "'a \<Rightarrow> ('a \<times> nat) list \<Rightarrow> ('a \<times> nat) list" where
  "counter_add x [] = [(x, 1)]"
| "counter_add x ((k, n) # kvs) =
     (if k = x then (k, Suc n) # kvs else (k, n) # counter_add x kvs)"

definition Counter :: "'a list \<Rightarrow> ('a \<times> nat) list" where
  "Counter xs = foldl (\<lambda>c x. counter_add x c) [] xs"

fun max_by_count :: "('a \<times> nat) \<Rightarrow> ('a \<times> nat) list \<Rightarrow> ('a \<times> nat)" where
  "max_by_count best [] = best"
| "max_by_count best (kv # kvs) = max_by_count (if snd best < snd kv then kv else best) kvs"

definition Counter_most_common_1 :: "'a list \<Rightarrow> 'a option" where
  "Counter_most_common_1 xs =
     (case Counter xs of [] \<Rightarrow> None | kv # kvs \<Rightarrow> Some (fst (max_by_count kv kvs)))"

definition most_common :: "int list \<Rightarrow> int option" where
  "most_common dfs = (if dfs = [] then None else Counter_most_common_1 dfs)"

definition most_common_neg :: "int list \<Rightarrow> int option" where
  "most_common_neg dfs =
     (if dfs = [] then None
      else let neg_diffs = filter (\<lambda>x. x < 0) dfs
           in if neg_diffs = [] then None else Counter_most_common_1 neg_diffs)"

text \<open>\<^verbatim>\<open>not neg_mode\<close> holds for \<^verbatim>\<open>None\<close> and for \<^verbatim>\<open>0\<close>.\<close>

definition num_most_common_neg :: "int list \<Rightarrow> nat" where
  "num_most_common_neg dfs =
     (case most_common_neg dfs of None \<Rightarrow> 0
      | Some neg_mode \<Rightarrow> if neg_mode = 0 then 0 else count_list dfs neg_mode)"

text \<open>
  The two counts, written the same way in both heuristics:
  \<^verbatim>\<open>sum([1 for diff in diffs if diff<0 and diff not in [59, 5, 9]])\<close> and
  \<^verbatim>\<open>sum([1 for diff in diffs if diff>0])\<close>.
\<close>

definition n_negs_of :: "int list \<Rightarrow> nat" where
  "n_negs_of dfs =
     sum_list (map (\<lambda>diff. 1) (filter (\<lambda>diff. diff < 0 \<and> diff \<notin> set [59, 5, 9]) dfs))"

definition n_pos_of :: "int list \<Rightarrow> nat" where
  "n_pos_of dfs = sum_list (map (\<lambda>diff. 1) (filter (\<lambda>diff. diff > 0) dfs))"

subsection \<open>The two heuristics\<close>

text \<open>
  \<^verbatim>\<open>float(n_negs) / n_pos > 5\<close> is a division of two counts in floating point; it is
  the division of the reals here, which gives the same comparison for every series
  shorter than \<open>2 ^ 51\<close>. The unused \<^verbatim>\<open>n_zeroes\<close> is left out, and \<^verbatim>\<open>diffs\<close> is \<open>dfs\<close>.
\<close>

definition is_decreasing :: "string list \<Rightarrow> error + bool" where
  "is_decreasing series =
     (case differences series of Inl e \<Rightarrow> Inl e
      | Inr dfs \<Rightarrow> Inr (
          if dfs = [] then False
          else let n_negs = n_negs_of dfs; n_pos = n_pos_of dfs
               in if n_negs < TIMER_MIN_NO_OF_NEG_UPDATES then False
                  else if n_pos = 0 then True
                  else real n_negs / real n_pos > real TIMER_MIN_NEG_POS_UPDATE_RATIO))"

text \<open>
  \<^verbatim>\<open>mode > 0\<close> on the result of \<^verbatim>\<open>most_common\<close>; \<^verbatim>\<open>None > 0\<close> is false in the
  notebook's Python 2 (and \<^verbatim>\<open>mode\<close> is never \<^verbatim>\<open>None\<close> there, \<^verbatim>\<open>diffs\<close> being non-empty).
\<close>

definition gt_zero :: "int option \<Rightarrow> bool" where
  "gt_zero mode = (case mode of None \<Rightarrow> False | Some m \<Rightarrow> m > 0)"

definition is_decreasing_mode :: "string list \<Rightarrow> error + bool" where
  "is_decreasing_mode series =
     (case differences series of Inl e \<Rightarrow> Inl e
      | Inr dfs \<Rightarrow> Inr (
          if dfs = [] then False
          else if card (set series) < 5 then False
          else let n_negs = n_negs_of dfs; n_pos = n_pos_of dfs
               in if n_negs < TIMER_MIN_NO_OF_NEG_UPDATES then False
                  else if n_pos = 0 then True
                  else let mode = most_common dfs
                       in if gt_zero mode then False
                          else let neg_mode_cnt = num_most_common_neg dfs
                               in if neg_mode_cnt < 5 then False
                                  else n_negs > n_pos))"

definition num_unique :: "'a list \<Rightarrow> nat" where
  "num_unique series = card (set series)"

text \<open>
  \<^verbatim>\<open>ts_check\<close>; \<open>int_of_ts\<close> is \<^verbatim>\<open>int(ts)\<close>, the time stamp cut to a whole number
  of seconds.
\<close>

definition ts_check :: "('ts \<Rightarrow> int) \<Rightarrow> 'ts list \<Rightarrow> bool" where
  "ts_check int_of_ts series =
     (let n_uniq_ts_seconds = card (set (map int_of_ts series)) in n_uniq_ts_seconds \<ge> 5)"

subsection \<open>Grouping and filtering: \<^verbatim>\<open>detect_timers\<close>\<close>

text \<open>
  A row of \<^verbatim>\<open>segments_grouped\<close>, with the column names the notebook makes by joining
  the two levels with \<^verbatim>\<open>_\<close>; the four key columns (\<^verbatim>\<open>visit_id_\<close>, \<^verbatim>\<open>top_\<close>, \<^verbatim>\<open>left_\<close>,
  \<^verbatim>\<open>inner_processed_\<close>) are the field \<open>group_key\<close>.
\<close>

type_synonym key = "int \<times> int \<times> int \<times> string"

record segment_group =
  group_key :: key
  node_id_num_unique :: nat
  time_stamp_ts_check :: bool
  inner_digits_is_decreasing :: bool
  inner_digits_is_decreasing_mode :: bool
  site_url_first :: string

definition key_of :: "'ts segment \<Rightarrow> key" where
  "key_of r = (visit_id r, top_y r, left_x r, inner_processed r)"

text \<open>
  \<^verbatim>\<open>groupby([...], as_index=False)\<close>: one group for each distinct key, the groups in
  ascending order of the key (\<^verbatim>\<open>sort=True\<close> is the default), the rows of a group in the
  order they have in the table.
\<close>

definition groupby :: "'ts segment list \<Rightarrow> (key \<times> 'ts segment list) list" where
  "groupby tmp =
     map (\<lambda>k. (k, filter (\<lambda>r. key_of r = k) tmp)) (sort (remdups (map key_of tmp)))"

text \<open>\<^verbatim>\<open>head(n)\<close>: the first \<open>n\<close> rows, or all rows but the last \<open>- n\<close> for a negative \<open>n\<close>.\<close>

definition head :: "int \<Rightarrow> 'a list \<Rightarrow> 'a list" where
  "head n xs = (if 0 \<le> n then take (nat n) xs else take (length xs - nat (- n)) xs)"

text \<open>
  The aggregation of one group. An exception of an aggregating function ends the whole
  aggregation. \<^verbatim>\<open>'first'\<close> is the value of the group's first row; a group has a row.
\<close>

definition agg :: "('ts \<Rightarrow> int) \<Rightarrow> key \<times> 'ts segment list \<Rightarrow> error + segment_group" where
  "agg int_of_ts g =
     (case is_decreasing (map inner_digits (snd g)) of Inl e \<Rightarrow> Inl e
      | Inr dec \<Rightarrow>
         (case is_decreasing_mode (map inner_digits (snd g)) of Inl e \<Rightarrow> Inl e
          | Inr dec_mode \<Rightarrow>
             Inr \<lparr>group_key = fst g,
                  node_id_num_unique = num_unique (map node_id (snd g)),
                  time_stamp_ts_check = ts_check int_of_ts (map time_stamp (snd g)),
                  inner_digits_is_decreasing = dec,
                  inner_digits_is_decreasing_mode = dec_mode,
                  site_url_first = (case snd g of [] \<Rightarrow> [] | r # _ \<Rightarrow> site_url r)\<rparr>))"

text \<open>
  The local \<^verbatim>\<open>tmp\<close> of \<^verbatim>\<open>detect_timers\<close>: \<^verbatim>\<open>if limit\<close> is false for \<^verbatim>\<open>None\<close> and
  for \<^verbatim>\<open>0\<close>.
\<close>

definition tmp_rows :: "'a list \<Rightarrow> int option \<Rightarrow> 'a list" where
  "tmp_rows segments limit =
     (case limit of None \<Rightarrow> segments | Some n \<Rightarrow> if n = 0 then segments else head n segments)"

text \<open>The result is the pair \<^verbatim>\<open>(timers, segments_grouped)\<close>.\<close>

definition detect_timers ::
    "('ts \<Rightarrow> int) \<Rightarrow> 'ts segment list \<Rightarrow> int option \<Rightarrow> error + (segment_group list \<times> segment_group list)" where
  "detect_timers int_of_ts segments limit =
     (let tmp = tmp_rows segments limit
      in case collect (map (agg int_of_ts) (groupby tmp)) of Inl e \<Rightarrow> Inl e
         | Inr segments_grouped \<Rightarrow>
             Inr (filter (\<lambda>g. inner_digits_is_decreasing g \<and> inner_digits_is_decreasing_mode g
                              \<and> time_stamp_ts_check g) segments_grouped,
                  segments_grouped))"

subsection \<open>The heuristics as the specification words them\<close>

text \<open>
  The specification's \<open>diffs[i] = value(s[i+1]) - value(s[i])\<close>, its counts \<open>nNeg\<close> and
  \<open>nPos\<close>, its mode (the most frequent value, the one met first among equally frequent
  ones) and its \<open>modeNegCount\<close>, and the two heuristics as its numbered steps state them.
\<close>

definition spec_diffs :: "string list \<Rightarrow> int list" where
  "spec_diffs s = map (\<lambda>i. digits_value (s ! Suc i) - digits_value (s ! i)) [0..<length s - 1]"

definition spec_nNeg :: "int list \<Rightarrow> nat" where
  "spec_nNeg ds = length (filter (\<lambda>d. d < 0 \<and> d \<notin> {59, 5, 9}) ds)"

definition spec_nPos :: "int list \<Rightarrow> nat" where
  "spec_nPos ds = length (filter (\<lambda>d. 0 < d) ds)"

definition spec_isDecreasing :: "string list \<Rightarrow> bool" where
  "spec_isDecreasing s =
     (let ds = spec_diffs s; nNeg = spec_nNeg ds; nPos = spec_nPos ds
      in 5 \<le> nNeg \<and> (nPos = 0 \<or> 5 < real nNeg / real nPos))"

definition spec_mode :: "int list \<Rightarrow> int option" where
  "spec_mode ds = find (\<lambda>x. list_all (\<lambda>y. count_list ds y \<le> count_list ds x) ds) ds"

definition spec_modeNegCount :: "int list \<Rightarrow> nat" where
  "spec_modeNegCount ds =
     (case spec_mode (filter (\<lambda>d. d < 0) ds) of None \<Rightarrow> 0 | Some m \<Rightarrow> count_list ds m)"


text \<open>The heuristics with the clause \<^verbatim>\<open>diff not in [59, 5, 9]\<close> removed.\<close>

definition n_negs_plain :: "int list \<Rightarrow> nat" where
  "n_negs_plain dfs = sum_list (map (\<lambda>diff. 1) (filter (\<lambda>diff. diff < 0) dfs))"

definition is_decreasing_plain :: "string list \<Rightarrow> error + bool" where
  "is_decreasing_plain series =
     (case differences series of Inl e \<Rightarrow> Inl e
      | Inr dfs \<Rightarrow> Inr (
          if dfs = [] then False
          else let n_negs = n_negs_plain dfs; n_pos = n_pos_of dfs
               in if n_negs < TIMER_MIN_NO_OF_NEG_UPDATES then False
                  else if n_pos = 0 then True
                  else real n_negs / real n_pos > real TIMER_MIN_NEG_POS_UPDATE_RATIO))"

definition is_decreasing_mode_plain :: "string list \<Rightarrow> error + bool" where
  "is_decreasing_mode_plain series =
     (case differences series of Inl e \<Rightarrow> Inl e
      | Inr dfs \<Rightarrow> Inr (
          if dfs = [] then False
          else if card (set series) < 5 then False
          else let n_negs = n_negs_plain dfs; n_pos = n_pos_of dfs
               in if n_negs < TIMER_MIN_NO_OF_NEG_UPDATES then False
                  else if n_pos = 0 then True
                  else let mode = most_common dfs
                       in if gt_zero mode then False
                          else let neg_mode_cnt = num_most_common_neg dfs
                               in if neg_mode_cnt < 5 then False
                                  else n_negs > n_pos))"

subsection \<open>Example inputs\<close>

text \<open>
  Six times the count-down \<open>6, 5, 4, 3, 2, 1\<close>, jumping back to \<open>6\<close> five times:
  25 decreases and 5 increases.
\<close>

definition ratio_five_series :: "string list" where
  "ratio_five_series =
     concat (replicate 5 [''6'', ''5'', ''4'', ''3'', ''2'', ''1'']) @ [''6'']"

text \<open>A count-down from 10 to 05, and the same jumping back to 10 at its end.\<close>

definition countdown_series :: "string list" where
  "countdown_series = [''10'', ''09'', ''08'', ''07'', ''06'', ''05'']"

definition restart_series :: "string list" where
  "restart_series = countdown_series @ [''10'']"

text \<open>
  Rows of one element at one position of one visit; the time stamps are milliseconds,
  cut to seconds by \<open>ms_to_sec\<close>. \<open>countdown_rows\<close> has one row a second,
  \<open>burst_rows\<close> the same texts within three seconds, \<open>two_node_rows\<close> two rows that
  differ in the node only.
\<close>

definition ms_to_sec :: "int \<Rightarrow> int" where
  "ms_to_sec ts = ts div 1000"

definition obs :: "int \<Rightarrow> int \<Rightarrow> string \<Rightarrow> int segment" where
  "obs nid ts txt =
     \<lparr>site_url = ''http://shop.example/'', visit_id = 41, node_id = nid, top_y = 145,
      left_x = 290, width = 200, height = 20, inner_text = txt, time_stamp = ts,
      inner_processed = inner_processed_of txt, inner_digits = inner_digits_of txt\<rparr>"

definition countdown_rows :: "int segment list" where
  "countdown_rows =
     [obs 7 1000 ''00:10'', obs 7 2000 ''00:09'', obs 7 3000 ''00:08'', obs 7 4000 ''00:07'',
      obs 7 5000 ''00:06'', obs 7 6000 ''00:05'']"



definition example_group :: "nat \<Rightarrow> bool \<Rightarrow> bool \<Rightarrow> segment_group" where
  "example_group n ts dec =
     \<lparr>group_key = (41, 145, 290, ''DPNUM:DPNUM''), node_id_num_unique = n,
      time_stamp_ts_check = ts, inner_digits_is_decreasing = dec,
      inner_digits_is_decreasing_mode = dec, site_url_first = ''http://shop.example/''\<rparr>"

section \<open>Properties\<close>

subsection \<open>Preprocessing and differences\<close>

lemma not_digit_DPNUM: "\<not> is_digit CHR ''D''" "\<not> is_digit CHR ''P''" "\<not> is_digit CHR ''N''"
  "\<not> is_digit CHR ''U''" "\<not> is_digit CHR ''M''"
  by (simp_all add: is_digit_def less_eq_char_def)

lemma inner_processed_no_digit: "c \<in> set (inner_processed_of x) \<Longrightarrow> \<not> is_digit c"
  by (induction x rule: inner_processed_of.induct) (auto simp: not_digit_DPNUM split: if_splits)

lemma inner_processed_fixed: "list_all (\<lambda>c. \<not> is_digit c) x \<Longrightarrow> inner_processed_of x = x"
  by (induction x) auto

lemma n_negs_excl: "n_negs_of dfs = n_negs_plain dfs"
proof -
  have "(\<lambda>diff::int. diff < 0 \<and> diff \<notin> set [59, 5, 9]) = (\<lambda>diff. diff < 0)"
    by auto
  then show ?thesis by (simp add: n_negs_of_def n_negs_plain_def)
qed

lemma collect_map_Inr: "collect (map (\<lambda>x. Inr (f x)) xs) = Inr (map f xs)"
  by (induction xs) auto


lemma collect_Inr_map: "collect xs = Inr vs \<Longrightarrow> xs = map Inr vs"
  by (induction xs arbitrary: vs) (auto split: sum.splits)

lemma zip_butlast_tl: "map (\<lambda>(i, j). f i j) (zip (butlast s) (tl s)) = map (\<lambda>i. f (s ! i) (s ! Suc i)) [0..<length s - 1]"
  by (rule nth_equalityI) (auto simp: nth_butlast nth_tl)

lemma differences_valid:
  assumes "list_all digit_string s"
  shows "differences s = Inr (spec_diffs s)"
proof -
  let ?g = "\<lambda>(i, j). case py_int j of Inl e \<Rightarrow> Inl e
        | Inr vj \<Rightarrow> (case py_int i of Inl e \<Rightarrow> Inl e | Inr vi \<Rightarrow> Inr (vj - vi))"
  have "map ?g (zip (butlast s) (tl s)) = map (\<lambda>(i, j). Inr (digits_value j - digits_value i)) (zip (butlast s) (tl s))"
  proof (rule map_cong[OF refl])
    fix p assume "p \<in> set (zip (butlast s) (tl s))"
    obtain i j where p: "p = (i, j)" by (cases p)
    with \<open>p \<in> set (zip (butlast s) (tl s))\<close> have "i \<in> set (butlast s)" "j \<in> set (tl s)"
      by (auto dest: set_zip_leftD set_zip_rightD)
    then have "i \<in> set s" "j \<in> set s" by (auto dest: in_set_butlastD) (cases s, auto)
    with assms have "digit_string i" "digit_string j" by (auto simp: list_all_iff)
    then show "?g p = (\<lambda>(i, j). Inr (digits_value j - digits_value i)) p"
      by (simp add: p py_int_def)
  qed
  also have "\<dots> = map (\<lambda>p. Inr ((\<lambda>(i, j). digits_value j - digits_value i) p)) (zip (butlast s) (tl s))"
    by (simp add: case_prod_unfold)
  finally have "differences s = Inr (map (\<lambda>(i, j). digits_value j - digits_value i) (zip (butlast s) (tl s)))"
    unfolding differences_def by (simp only: collect_map_Inr)
  then show ?thesis by (simp add: zip_butlast_tl spec_diffs_def)
qed

subsection \<open>The counter and its most common element\<close>

lemma counter_add_map:
  "distinct ks \<Longrightarrow> counter_add x (map (\<lambda>k. (k, f k)) ks) =
     (if x \<in> set ks then map (\<lambda>k. (k, if k = x then Suc (f k) else f k)) ks
      else map (\<lambda>k. (k, f k)) ks @ [(x, 1)])"
  by (induction ks) auto

lemma Counter_snoc: "Counter (xs @ [x]) = counter_add x (Counter xs)"
  by (simp add: Counter_def)

lemma Counter_counts: "Counter xs = map (\<lambda>k. (k, count_list xs k)) (rev (remdups (rev xs)))"
proof (induction xs rule: rev_induct)
  case Nil
  show ?case by (simp add: Counter_def)
next
  case (snoc x xs)
  have d: "distinct (rev (remdups (rev xs)))" by simp
  show ?case
  proof (cases "x \<in> set xs")
    case True
    then show ?thesis
      by (simp add: Counter_snoc snoc counter_add_map[OF d])
  next
    case False
    then show ?thesis
      by (auto simp: Counter_snoc snoc counter_add_map[OF d] count_list_0_iff)
  qed
qed

lemma max_by_count_split:
  "\<exists>pre post. best # kvs = pre @ max_by_count best kvs # post
     \<and> (\<forall>kv \<in> set pre. snd kv < snd (max_by_count best kvs))
     \<and> (\<forall>kv \<in> set post. snd kv \<le> snd (max_by_count best kvs))"
proof (induction kvs arbitrary: best)
  case Nil
  show ?case by (rule exI[of _ "[]"]) simp
next
  case (Cons kv kvs)
  show ?case
  proof (cases "snd best < snd kv")
    case True
    then have r: "max_by_count best (kv # kvs) = max_by_count kv kvs" by simp
    from Cons[of kv] obtain pre post where
      s: "kv # kvs = pre @ max_by_count kv kvs # post"
      and p: "\<forall>x \<in> set pre. snd x < snd (max_by_count kv kvs)"
      and q: "\<forall>x \<in> set post. snd x \<le> snd (max_by_count kv kvs)" by blast
    have "kv \<in> set (pre @ max_by_count kv kvs # post)" using s by (metis list.set_intros(1))
    then have "snd kv \<le> snd (max_by_count kv kvs)" using p q by auto
    with True have b: "snd best < snd (max_by_count kv kvs)" by simp
    have "best # kv # kvs = (best # pre) @ max_by_count kv kvs # post" using s by simp
    moreover have "\<forall>x \<in> set (best # pre). snd x < snd (max_by_count kv kvs)" using p b by simp
    ultimately show ?thesis unfolding r using q by blast
  next
    case False
    then have r: "max_by_count best (kv # kvs) = max_by_count best kvs" by simp
    from Cons[of best] obtain pre post where
      s: "best # kvs = pre @ max_by_count best kvs # post"
      and p: "\<forall>x \<in> set pre. snd x < snd (max_by_count best kvs)"
      and q: "\<forall>x \<in> set post. snd x \<le> snd (max_by_count best kvs)" by blast
    show ?thesis
    proof (cases pre)
      case Nil
      from s[unfolded Nil] have "best # kvs = max_by_count best kvs # post"
        by (simp only: append_Nil)
      then have e: "max_by_count best kvs = best" "post = kvs" by (metis list.inject)+
      have "best # kv # kvs = [] @ max_by_count best kvs # (kv # kvs)" using e by simp
      moreover have "\<forall>x \<in> set (kv # kvs). snd x \<le> snd (max_by_count best kvs)"
        using q e False by auto
      moreover have "\<forall>x \<in> set []. snd x < snd (max_by_count best kvs)" by simp
      ultimately show ?thesis unfolding r by blast
    next
      case (Cons b pre')
      from s[unfolded Cons] have "best # kvs = b # (pre' @ max_by_count best kvs # post)"
        by (simp only: append_Cons)
      then have b: "b = best" and t: "kvs = pre' @ max_by_count best kvs # post"
        by (metis list.inject)+
      from p Cons b have "snd best < snd (max_by_count best kvs)" by simp
      with False have "snd kv < snd (max_by_count best kvs)" by simp
      with p Cons b have "\<forall>x \<in> set (best # kv # pre'). snd x < snd (max_by_count best kvs)"
        by simp
      moreover have "best # kv # kvs = (best # kv # pre') @ max_by_count best kvs # post"
        using t by simp
      ultimately show ?thesis unfolding r using q by blast
    qed
  qed
qed

lemma find_split:
  "\<forall>x \<in> set pre. \<not> P x \<Longrightarrow> P y \<Longrightarrow> List.find P (pre @ y # post) = Some y"
  by (induction pre) auto

lemma find_map_pair: "List.find P (map f xs) = map_option f (List.find (\<lambda>x. P (f x)) xs)"
  by (induction xs) auto

lemma find_first_occ: "List.find P (rev (remdups (rev xs))) = List.find P xs"
proof (induction xs rule: rev_induct)
  case Nil
  show ?case by simp
next
  case (snoc x xs)
  have app: "\<And>ys. List.find P (ys @ [x]) = (case List.find P ys of None \<Rightarrow> (if P x then Some x else None) | Some y \<Rightarrow> Some y)"
    subgoal for ys by (induction ys) auto
    done
  show ?case
  proof (cases "x \<in> set xs")
    case True
    then have "List.find P xs = None \<Longrightarrow> \<not> P x" by (auto simp: find_None_iff)
    with True snoc show ?thesis by (auto simp: app split: option.splits)
  next
    case False
    with snoc show ?thesis by (simp add: app)
  qed
qed

lemma max_by_count_find:
  "List.find (\<lambda>kv. list_all (\<lambda>kv'. snd kv' \<le> snd kv) (best # kvs)) (best # kvs) = Some (max_by_count best kvs)"
proof -
  from max_by_count_split[of best kvs] obtain pre post where
      s: "best # kvs = pre @ max_by_count best kvs # post"
      and p: "\<forall>x \<in> set pre. snd x < snd (max_by_count best kvs)"
      and q: "\<forall>x \<in> set post. snd x \<le> snd (max_by_count best kvs)" by blast
  let ?P = "\<lambda>kv. list_all (\<lambda>kv'. snd kv' \<le> snd kv) (pre @ max_by_count best kvs # post)"
  have "\<forall>x \<in> set pre. \<not> ?P x" using p by (auto simp: list_all_iff)
  moreover have "?P (max_by_count best kvs)" using p q by (auto simp: list_all_iff intro: less_imp_le)
  ultimately have "List.find ?P (pre @ max_by_count best kvs # post) = Some (max_by_count best kvs)"
    by (rule find_split)
  then show ?thesis using s by simp
qed

lemma Counter_most_common_1_find:
  "Counter_most_common_1 xs = List.find (\<lambda>x. list_all (\<lambda>y. count_list xs y \<le> count_list xs x) xs) xs"
proof (cases "Counter xs")
  case Nil
  then have "rev (remdups (rev xs)) = []" by (simp add: Counter_counts)
  then have "xs = []" by (metis remdups_eq_nil_iff rev_is_Nil_conv)
  then show ?thesis by (simp add: Counter_most_common_1_def Counter_def)
next
  case (Cons kv kvs)
  let ?ks = "rev (remdups (rev xs))"
  let ?f = "\<lambda>k. (k, count_list xs k)"
  have "Some (max_by_count kv kvs) = List.find (\<lambda>p. list_all (\<lambda>q. snd q \<le> snd p) (Counter xs)) (Counter xs)"
    using max_by_count_find[of kv kvs] Cons by simp
  also have "\<dots> = map_option ?f (List.find (\<lambda>x. list_all (\<lambda>y. count_list xs y \<le> count_list xs x) ?ks) ?ks)"
    by (simp add: Counter_counts find_map_pair list_all_iff)
  also have "(\<lambda>x. list_all (\<lambda>y. count_list xs y \<le> count_list xs x) ?ks) = (\<lambda>x. list_all (\<lambda>y. count_list xs y \<le> count_list xs x) xs)"
    by (simp add: list_all_iff)
  finally have "Some (max_by_count kv kvs) = map_option ?f (List.find (\<lambda>x. list_all (\<lambda>y. count_list xs y \<le> count_list xs x) xs) xs)"
    by (simp add: find_first_occ)
  then have "List.find (\<lambda>x. list_all (\<lambda>y. count_list xs y \<le> count_list xs x) xs) xs
      = Some (fst (max_by_count kv kvs))"
    by (cases "List.find (\<lambda>x. list_all (\<lambda>y. count_list xs y \<le> count_list xs x) xs) xs") auto
  then show ?thesis
    by (simp add: Counter_most_common_1_def Cons)
qed

subsection \<open>The heuristics against their specification\<close>

lemma n_negs_of_spec: "n_negs_of dfs = spec_nNeg dfs"
  by (simp add: n_negs_of_def spec_nNeg_def sum_list_triv)

lemma n_pos_of_spec: "n_pos_of dfs = spec_nPos dfs"
  by (simp add: n_pos_of_def spec_nPos_def sum_list_triv)

lemma spec_nNeg_Nil: "spec_nNeg [] = 0"
  by (simp add: spec_nNeg_def)

lemma is_decreasing_of_differences:
  "differences s = Inr dfs \<Longrightarrow>
   is_decreasing s = Inr (5 \<le> spec_nNeg dfs \<and> (spec_nPos dfs = 0 \<or> 5 < real (spec_nNeg dfs) / real (spec_nPos dfs)))"
  by (cases "dfs = []")
    (auto simp: is_decreasing_def Let_def n_negs_of_spec n_pos_of_spec spec_nNeg_Nil
      TIMER_MIN_NO_OF_NEG_UPDATES_def TIMER_MIN_NEG_POS_UPDATE_RATIO_def)

lemma is_decreasing_spec:
  "list_all digit_string s \<Longrightarrow> is_decreasing s = Inr (spec_isDecreasing s)"
  by (simp add: is_decreasing_of_differences[OF differences_valid] spec_isDecreasing_def Let_def)

lemma most_common_spec: "most_common dfs = spec_mode dfs"
  by (simp add: most_common_def spec_mode_def Counter_most_common_1_find)

lemma most_common_neg_spec: "most_common_neg dfs = spec_mode (filter (\<lambda>d. d < 0) dfs)"
  by (simp add: most_common_neg_def spec_mode_def Counter_most_common_1_find Let_def)

lemma spec_mode_mem: "spec_mode ds = Some m \<Longrightarrow> m \<in> set ds"
  by (auto simp: spec_mode_def find_Some_iff)

lemma num_most_common_neg_spec: "num_most_common_neg dfs = spec_modeNegCount dfs"
proof (cases "spec_mode (filter (\<lambda>d. d < 0) dfs)")
  case None
  then show ?thesis
    by (simp add: num_most_common_neg_def spec_modeNegCount_def most_common_neg_spec)
next
  case (Some m)
  then have "m < 0" using spec_mode_mem[OF Some] by simp
  with Some show ?thesis
    by (simp add: num_most_common_neg_def spec_modeNegCount_def most_common_neg_spec)
qed

lemma spec_mode_Some: "ds \<noteq> [] \<Longrightarrow> \<exists>m. spec_mode ds = Some m"
proof -
  assume "ds \<noteq> []"
  then have "Counter ds \<noteq> []" by (simp add: Counter_counts)
  then have "Counter_most_common_1 ds \<noteq> None"
    by (auto simp: Counter_most_common_1_def split: list.splits)
  then show ?thesis by (simp add: Counter_most_common_1_find spec_mode_def)
qed

lemma is_decreasing_mode_of_differences:
  "differences s = Inr dfs \<Longrightarrow>
   is_decreasing_mode s = Inr (5 \<le> card (set s) \<and> 5 \<le> spec_nNeg dfs \<and>
      (spec_nPos dfs = 0 \<or>
       ((case spec_mode dfs of None \<Rightarrow> False | Some m \<Rightarrow> m \<le> 0)
         \<and> 5 \<le> spec_modeNegCount dfs \<and> spec_nPos dfs < spec_nNeg dfs)))"
proof (cases "dfs = []")
  case True
  assume "differences s = Inr dfs"
  with True show ?thesis by (simp add: is_decreasing_mode_def spec_nNeg_Nil)
next
  case False
  assume d: "differences s = Inr dfs"
  from spec_mode_Some[OF False] obtain m where m: "spec_mode dfs = Some m" by blast
  show ?thesis
    using False d m
    by (auto simp: is_decreasing_mode_def Let_def n_negs_of_spec n_pos_of_spec
      most_common_spec num_most_common_neg_spec gt_zero_def
      TIMER_MIN_NO_OF_NEG_UPDATES_def)
qed


lemma ratio_real_nat: "0 < p \<Longrightarrow> (5 < real n / real p) = (5 * p < n)"
proof -
  assume "0 < p"
  then have "(5 < real n / real p) = (5 * real p < real n)"
    by (simp add: less_divide_eq)
  also have "\<dots> = (5 * p < n)" by (metis of_nat_less_iff of_nat_mult of_nat_numeral)
  finally show ?thesis .
qed



lemma pair_diff_Inr:
  "(case py_int j of Inl e \<Rightarrow> Inl e
        | Inr vj \<Rightarrow> (case py_int i of Inl e \<Rightarrow> Inl e | Inr vi \<Rightarrow> Inr (vj - vi))) = Inr v
   \<Longrightarrow> v = digits_value j - digits_value i"
  by (cases "digit_string j"; cases "digit_string i") (simp_all add: py_int_def)

lemma differences_Inr_spec:
  assumes "differences s = Inr dfs"
  shows "dfs = spec_diffs s"
proof -
  let ?g = "\<lambda>(i, j). case py_int j of Inl e \<Rightarrow> Inl e
        | Inr vj \<Rightarrow> (case py_int i of Inl e \<Rightarrow> Inl e | Inr vi \<Rightarrow> Inr (vj - vi))"
  let ?h = "\<lambda>(i, j). digits_value j - digits_value i"
  let ?zs = "zip (butlast s) (tl s)"
  from assms have "collect (map ?g ?zs) = Inr dfs"
    by (simp add: differences_def)
  then have m: "map ?g ?zs = map Inr dfs"
    by (rule collect_Inr_map)
  have "map ?g ?zs = map (\<lambda>p. Inr (?h p)) ?zs"
  proof (rule map_cong[OF refl])
    fix p assume "p \<in> set ?zs"
    then have "?g p \<in> ?g ` set ?zs" by (rule imageI)
    then have "?g p \<in> set (map ?g ?zs)" by (simp only: set_map)
    then have "?g p \<in> set (map Inr dfs)" by (simp only: m)
    then obtain v where v: "?g p = Inr v" by auto
    obtain i j where p: "p = (i, j)" by (cases p)
    from v have "v = digits_value j - digits_value i"
      unfolding p by (simp only: prod.case pair_diff_Inr)
    with v show "?g p = Inr (?h p)" unfolding p by (simp only: prod.case)
  qed
  then have x: "map ?g ?zs = map Inr (map ?h ?zs)" by (simp only: map_map comp_def)
  have "(map Inr dfs :: (error + int) list) = map Inr (map ?h ?zs)"
    by (rule trans[OF sym[OF m] x])
  then have "dfs = map ?h ?zs" by (rule map_injective) (simp add: inj_on_def)
  then show ?thesis by (simp add: zip_butlast_tl spec_diffs_def)
qed

subsection \<open>Grouping\<close>

lemma agg_Inr:
  "agg f p = Inr g \<Longrightarrow>
     group_key g = fst p
   \<and> node_id_num_unique g = card (set (map node_id (snd p)))
   \<and> time_stamp_ts_check g = ts_check f (map time_stamp (snd p))
   \<and> is_decreasing (map inner_digits (snd p)) = Inr (inner_digits_is_decreasing g)
   \<and> is_decreasing_mode (map inner_digits (snd p)) = Inr (inner_digits_is_decreasing_mode g)"
  by (auto simp: agg_def num_unique_def split: sum.splits)

lemma detect_timers_Inr:
  "detect_timers f segs limit = Inr (timers, grouped) \<Longrightarrow>
     map (agg f) (groupby (tmp_rows segs limit)) = map Inr grouped
   \<and> timers = filter (\<lambda>g. inner_digits_is_decreasing g \<and> inner_digits_is_decreasing_mode g
                              \<and> time_stamp_ts_check g) grouped"
  by (auto simp: detect_timers_def Let_def split: sum.splits dest: collect_Inr_map)


lemma groupby_mem:
  "p \<in> set (groupby tmp) \<longleftrightarrow> fst p \<in> key_of ` set tmp \<and> snd p = filter (\<lambda>r. key_of r = fst p) tmp"
  by (cases p) (auto simp: groupby_def)


lemma grouped_row:
  assumes "detect_timers f segs limit = Inr (timers, grouped)" "g \<in> set grouped"
  shows "agg f (group_key g, filter (\<lambda>r. key_of r = group_key g) (tmp_rows segs limit)) = Inr g"
    and "group_key g \<in> key_of ` set (tmp_rows segs limit)"
proof -
  from detect_timers_Inr[OF assms(1)]
  have m: "map (agg f) (groupby (tmp_rows segs limit)) = map Inr grouped" by simp
  from assms(2) have "Inr g \<in> set (map Inr grouped)" by simp
  with m have "Inr g \<in> set (map (agg f) (groupby (tmp_rows segs limit)))" by simp
  then obtain p where p: "p \<in> set (groupby (tmp_rows segs limit))" "agg f p = Inr g" by auto
  from agg_Inr[OF p(2)] have k: "group_key g = fst p" by simp
  from p(1) have q: "fst p \<in> key_of ` set (tmp_rows segs limit)"
     "snd p = filter (\<lambda>r. key_of r = fst p) (tmp_rows segs limit)" by (simp_all add: groupby_mem)
  have "p = (group_key g, filter (\<lambda>r. key_of r = group_key g) (tmp_rows segs limit))"
    using k q(2) by (cases p) simp
  with p(2) show "agg f (group_key g, filter (\<lambda>r. key_of r = group_key g) (tmp_rows segs limit)) = Inr g"
    by simp
  from q(1) k show "group_key g \<in> key_of ` set (tmp_rows segs limit)" by simp
qed





section \<open>The claims\<close>

text \<open>
  Claim C10. The substitution that replaces every maximal run of decimal digits by the
  token \<^verbatim>\<open>DPNUM\<close> is idempotent: applied to its own output it gives that output, for
  every input string.
\<close>
theorem collapse_idempotent:
  "inner_processed_of (inner_processed_of x) = inner_processed_of x"
  by (rule inner_processed_fixed) (simp add: list_all_iff inner_processed_no_digit)

text \<open>
  Claim C8. In both heuristics the clause \<^verbatim>\<open>diff not in [59, 5, 9]\<close> excludes nothing:
  no difference is negative and in the list, \<^verbatim>\<open>n_negs\<close> is the number of all negative
  differences, and each heuristic equals its variant without the clause, on every
  series (also where both raise).
\<close>
theorem exclusion_set_vacuous:
  "filter (\<lambda>diff. diff < 0 \<and> diff \<in> set [59, 5, 9]) dfs = []
   \<and> n_negs_of dfs = length (filter (\<lambda>diff. diff < 0) dfs)
   \<and> is_decreasing s = is_decreasing_plain s
   \<and> is_decreasing_mode s = is_decreasing_mode_plain s"
proof -
  have "filter (\<lambda>diff. diff < 0 \<and> diff \<in> set [59, 5, 9]) dfs = []"
    by (auto simp: filter_empty_conv)
  moreover have "n_negs_of dfs = length (filter (\<lambda>diff. diff < 0) dfs)"
    by (simp add: n_negs_excl n_negs_plain_def sum_list_triv)
  moreover have "is_decreasing s = is_decreasing_plain s"
    by (cases "differences s") (simp_all add: is_decreasing_def is_decreasing_plain_def n_negs_excl)
  moreover have "is_decreasing_mode s = is_decreasing_mode_plain s"
    by (cases "differences s")
      (simp_all add: is_decreasing_mode_def is_decreasing_mode_plain_def n_negs_excl)
  ultimately show ?thesis by simp
qed

theorem exclusion_set_vacuous_witness:
  "n_negs_of [- 59, - 5, - 9, 59, 5, 9, - 1] = 4
   \<and> is_decreasing restart_series = is_decreasing_plain restart_series
   \<and> is_decreasing_mode restart_series = is_decreasing_mode_plain restart_series"
  using exclusion_set_vacuous[of "[- 59, - 5, - 9, 59, 5, 9, - 1]" restart_series] by simp

text \<open>
  Claim C2. For every series of non-empty digit strings, \<^verbatim>\<open>is_decreasing\<close> returns
  true if and only if \<open>nNeg \<ge> 5\<close> and (\<open>nPos = 0\<close> or \<open>nNeg / nPos > 5\<close> in the
  reals), with the differences and counts as the specification words them
  (\<open>spec_isDecreasing\<close>); series shorter than two elements are included. On
  \<open>ratio_five_series\<close>, where \<open>nNeg = 25\<close> and \<open>nPos = 5\<close>, the result is false.
\<close>
theorem is_decreasing_ratio_test:
  "(list_all digit_string s \<longrightarrow> is_decreasing s = Inr (spec_isDecreasing s))
   \<and> list_all digit_string ratio_five_series
   \<and> spec_nNeg (spec_diffs ratio_five_series) = 25
   \<and> spec_nPos (spec_diffs ratio_five_series) = 5
   \<and> is_decreasing ratio_five_series = Inr False"
proof -
  have "list_all digit_string ratio_five_series" by code_simp
  moreover have "spec_nNeg (spec_diffs ratio_five_series) = 25" by code_simp
  moreover have "spec_nPos (spec_diffs ratio_five_series) = 5" by code_simp
  moreover have "is_decreasing ratio_five_series = Inr False" by code_simp
  ultimately show ?thesis by (simp add: is_decreasing_spec)
qed

theorem is_decreasing_ratio_test_witness:
  "list_all digit_string countdown_series
   \<and> is_decreasing countdown_series = Inr (spec_isDecreasing countdown_series)
   \<and> spec_isDecreasing countdown_series"
proof -
  have h: "list_all digit_string countdown_series" by code_simp
  have t: "spec_isDecreasing countdown_series" by code_simp
  from is_decreasing_ratio_test[of countdown_series] h t show ?thesis by simp
qed



text \<open>
  Claim C4, as stated, fails: on \<open>restart_series\<close> (five decreases, then one jump
  back) \<^verbatim>\<open>is_decreasing_mode\<close> is true and \<^verbatim>\<open>is_decreasing\<close> is false, the ratio
  being exactly 5.
\<close>
theorem mode_without_ratio_counterexample:
  "is_decreasing_mode restart_series = Inr True \<and> is_decreasing restart_series = Inr False"
  by code_simp

text \<open>
  Claim C4, amended. When \<^verbatim>\<open>is_decreasing_mode\<close> is true on a series,
  \<^verbatim>\<open>is_decreasing\<close> is true on it exactly when \<open>nPos = 0\<close> or \<open>nNeg > 5 * nPos\<close>.
\<close>

theorem mode_implies_ratio_amended:
  assumes "is_decreasing_mode s = Inr True"
  shows "is_decreasing s =
     Inr (spec_nPos (spec_diffs s) = 0 \<or> 5 * spec_nPos (spec_diffs s) < spec_nNeg (spec_diffs s))"
proof -
  from assms obtain dfs where d: "differences s = Inr dfs"
    by (auto simp: is_decreasing_mode_def split: sum.splits)
  then have e: "dfs = spec_diffs s" by (rule differences_Inr_spec)
  from assms have n: "5 \<le> spec_nNeg dfs"
    by (simp add: is_decreasing_mode_of_differences[OF d])
  show ?thesis
  proof (cases "spec_nPos dfs = 0")
    case True
    with n e show ?thesis by (simp add: is_decreasing_of_differences[OF d])
  next
    case False
    then have "0 < spec_nPos dfs" by simp
    from ratio_real_nat[OF this, of "spec_nNeg dfs"] n e False show ?thesis
      by (simp add: is_decreasing_of_differences[OF d])
  qed
qed

theorem mode_implies_ratio_amended_witness:
  "is_decreasing_mode countdown_series = Inr True \<and> is_decreasing countdown_series = Inr True"
proof -
  have h: "is_decreasing_mode countdown_series = Inr True" by code_simp
  have z: "spec_nPos (spec_diffs countdown_series) = 0" by code_simp
  from mode_implies_ratio_amended[OF h] h z show ?thesis by simp
qed






text \<open>
  Claim C6, as stated, fails: \<^verbatim>\<open>detect_timers\<close> never sorts by \<^verbatim>\<open>time_stamp\<close>. The six
  rows of \<open>countdown_rows\<close> arriving in reverse order are the same observations, and
  sorting them by time stamp gives \<open>countdown_rows\<close> back, yet the group is a timer for
  one arrival order and not for the other.
\<close>
theorem arrival_order_counterexample:
  "set (rev countdown_rows) = set countdown_rows
   \<and> sort_key time_stamp (rev countdown_rows) = countdown_rows
   \<and> detect_timers ms_to_sec countdown_rows None
       = Inr ([example_group 1 True True], [example_group 1 True True])
   \<and> detect_timers ms_to_sec (rev countdown_rows) None
       = Inr ([], [example_group 1 True False])"
proof -
  have "sort_key time_stamp (rev countdown_rows) = countdown_rows" by code_simp
  moreover have "detect_timers ms_to_sec countdown_rows None
       = Inr ([example_group 1 True True], [example_group 1 True True])" by code_simp
  moreover have "detect_timers ms_to_sec (rev countdown_rows) None
       = Inr ([], [example_group 1 True False])" by code_simp
  ultimately show ?thesis by simp
qed

text \<open>
  Claim C6, amended. The digit sequence both heuristics classify is the group's
  \<^verbatim>\<open>inner_digits\<close> in the order of the rows in the table; when the table is in ascending
  order of \<^verbatim>\<open>time_stamp\<close>, that is the group sorted by \<^verbatim>\<open>time_stamp\<close>.
\<close>

theorem digit_sequence_in_row_order:
  fixes segs :: "('ts::linorder) segment list"
  shows "(detect_timers f segs limit = Inr (timers, grouped) \<and> g \<in> set grouped \<longrightarrow>
        is_decreasing (map inner_digits
            (filter (\<lambda>r. key_of r = group_key g) (tmp_rows segs limit)))
          = Inr (inner_digits_is_decreasing g)
      \<and> is_decreasing_mode (map inner_digits
            (filter (\<lambda>r. key_of r = group_key g) (tmp_rows segs limit)))
          = Inr (inner_digits_is_decreasing_mode g))
   \<and> (sorted (map time_stamp (tmp_rows segs limit)) \<longrightarrow>
        sort_key time_stamp (filter (\<lambda>r. key_of r = k) (tmp_rows segs limit))
          = filter (\<lambda>r. key_of r = k) (tmp_rows segs limit))"
proof (intro conjI impI)
  assume a: "detect_timers f segs limit = Inr (timers, grouped) \<and> g \<in> set grouped"
  then have d: "detect_timers f segs limit = Inr (timers, grouped)" and g: "g \<in> set grouped"
    by simp_all
  from agg_Inr[OF grouped_row(1)[OF d g]]
  show "is_decreasing (map inner_digits
            (filter (\<lambda>r. key_of r = group_key g) (tmp_rows segs limit)))
          = Inr (inner_digits_is_decreasing g)"
    and "is_decreasing_mode (map inner_digits
            (filter (\<lambda>r. key_of r = group_key g) (tmp_rows segs limit)))
          = Inr (inner_digits_is_decreasing_mode g)"
    by simp_all
next
  assume "sorted (map time_stamp (tmp_rows segs limit))"
  then have "sorted (map time_stamp (filter (\<lambda>r. key_of r = k) (tmp_rows segs limit)))"
    by (rule sorted_filter)
  then show "sort_key time_stamp (filter (\<lambda>r. key_of r = k) (tmp_rows segs limit))
          = filter (\<lambda>r. key_of r = k) (tmp_rows segs limit)"
    by (rule sort_key_id_if_sorted)
qed

theorem digit_sequence_in_row_order_witness:
  "detect_timers ms_to_sec (rev countdown_rows) None = Inr ([], [example_group 1 True False])
   \<and> example_group 1 True False \<in> set [example_group 1 True False]
   \<and> map inner_digits (filter (\<lambda>r. key_of r = group_key (example_group 1 True False))
          (tmp_rows (rev countdown_rows) None)) = [''0005'', ''0006'', ''0007'', ''0008'', ''0009'', ''0010'']
   \<and> is_decreasing ([''0005'', ''0006'', ''0007'', ''0008'', ''0009'', ''0010'']) = Inr False
   \<and> is_decreasing_mode ([''0005'', ''0006'', ''0007'', ''0008'', ''0009'', ''0010'']) = Inr False
   \<and> sorted (map time_stamp (tmp_rows countdown_rows None))
   \<and> sort_key time_stamp (filter (\<lambda>r. key_of r = (41, 145, 290, ''DPNUM:DPNUM''))
          (tmp_rows countdown_rows None))
       = filter (\<lambda>r. key_of r = (41, 145, 290, ''DPNUM:DPNUM'')) (tmp_rows countdown_rows None)"
proof -
  let ?g = "example_group 1 True False"
  have d: "detect_timers ms_to_sec (rev countdown_rows) None = Inr ([], [?g])"
    by code_simp
  have m: "map inner_digits (filter (\<lambda>r. key_of r = group_key ?g)
          (tmp_rows (rev countdown_rows) None)) = [''0005'', ''0006'', ''0007'', ''0008'', ''0009'', ''0010'']"
    by code_simp
  have s: "sorted (map time_stamp (tmp_rows countdown_rows None))" by code_simp
  have f: "inner_digits_is_decreasing ?g = False" "inner_digits_is_decreasing_mode ?g = False"
    by (simp_all add: example_group_def)
  have i: "?g \<in> set [?g]" by simp
  note th = digit_sequence_in_row_order[of ms_to_sec _ None "[]" "[?g]" ?g
      "(41, 145, 290, ''DPNUM:DPNUM'')"]
  from th[of "rev countdown_rows"] d i
  have "is_decreasing ([''0005'', ''0006'', ''0007'', ''0008'', ''0009'', ''0010'']) = Inr False
      \<and> is_decreasing_mode ([''0005'', ''0006'', ''0007'', ''0008'', ''0009'', ''0010'']) = Inr False"
    unfolding m f by blast
  moreover from th[of countdown_rows] s
  have "sort_key time_stamp (filter (\<lambda>r. key_of r = (41, 145, 290, ''DPNUM:DPNUM''))
          (tmp_rows countdown_rows None))
       = filter (\<lambda>r. key_of r = (41, 145, 290, ''DPNUM:DPNUM'')) (tmp_rows countdown_rows None)"
    by blast
  ultimately show ?thesis using d i m s by blast
qed





end
